theory Spec2Isabelle
  imports Complex_Main
begin

section \<open>The host language: keys, the ordered map, calls and promises\<close>

text \<open>
  \<^verbatim>\<open>export type K = string | number\<close>. A property read \<^verbatim>\<open>v[key]\<close> on an item that lacks the
  field yields \<^verbatim>\<open>undefined\<close>, which a \<^verbatim>\<open>Map\<close> accepts as a key; so the key type has a third
  alternative. Numbers are taken as integers.
\<close>

datatype K = KStr string | KNum int | KUndefined

text \<open>
  \<^verbatim>\<open>class Collection<V> extends Map<K, V>\<close>: the inherited map data is the list of entries in
  insertion order; \<^verbatim>\<open>keyName\<close> is the one field the class adds. A \<^verbatim>\<open>Map\<close> never holds a key
  twice: \<open>unique_keys\<close> is that invariant.
\<close>

record 'v Collection =
  entries :: "(K \<times> 'v) list"
  keyName :: string

definition unique_keys :: "'v Collection \<Rightarrow> bool" where
  "unique_keys c = distinct (map fst (entries c))"

text \<open>
  \<^verbatim>\<open>Map.prototype.set\<close>: an existing key keeps its position and takes the new value, a new key
  is appended. \<^verbatim>\<open>Map.prototype.delete\<close>, \<^verbatim>\<open>clear\<close> and \<^verbatim>\<open>size\<close> follow.
\<close>

fun set_entry :: "K \<Rightarrow> 'v \<Rightarrow> (K \<times> 'v) list \<Rightarrow> (K \<times> 'v) list" where
  "set_entry k v [] = [(k, v)]"
| "set_entry k v ((k', v') # es) =
     (if k' = k then (k, v) # es else (k', v') # set_entry k v es)"

definition delete_entry :: "K \<Rightarrow> (K \<times> 'v) list \<Rightarrow> (K \<times> 'v) list" where
  "delete_entry k es = filter (\<lambda>e. fst e \<noteq> k) es"

definition Map_set :: "K \<Rightarrow> 'v \<Rightarrow> 'v Collection \<Rightarrow> 'v Collection" where
  "Map_set k v c = c\<lparr>entries := set_entry k v (entries c)\<rparr>"

definition Map_delete :: "K \<Rightarrow> 'v Collection \<Rightarrow> 'v Collection" where
  "Map_delete k c = c\<lparr>entries := delete_entry k (entries c)\<rparr>"

definition Map_clear :: "'v Collection \<Rightarrow> 'v Collection" where
  "Map_clear c = c\<lparr>entries := []\<rparr>"

definition Map_size :: "'v Collection \<Rightarrow> nat" where
  "Map_size c = length (entries c)"

text \<open>\<^verbatim>\<open>new Map(iterable)\<close> calls \<^verbatim>\<open>set\<close> for each entry of the iterable, from the empty map.\<close>

definition Map_new :: "(K \<times> 'v) list \<Rightarrow> (K \<times> 'v) list" where
  "Map_new data = fold (\<lambda>(k, v). set_entry k v) data []"

text \<open>
  A call either throws (\<open>Inl\<close>) or returns (\<open>Inr\<close>). A value that a method can return for
  \<^verbatim>\<open>undefined\<close> is an option, \<open>None\<close> being \<^verbatim>\<open>undefined\<close>.
\<close>

datatype error = TypeError | AggregateError | Thrown string

text \<open>
  The argument passed where a function is expected: \<^verbatim>\<open>typeof fn !== "function"\<close> is
  \<open>NotCallable\<close>. A callable takes its receiver first (\<open>None\<close> when it is called unbound):
  \<^verbatim>\<open>fn.bind(thisArg)\<close> fixes that receiver. Callables are pure functions of the receiver and
  the three arguments \<^verbatim>\<open>(value, key, collection)\<close>; they may read the collection they are
  given, they do not write it.
\<close>

datatype 'f fn_arg = Callable 'f | NotCallable

definition bind :: "('t option \<Rightarrow> 'f) \<Rightarrow> 't \<Rightarrow> ('t option \<Rightarrow> 'f)" where
  "bind fn thisArg = (\<lambda>_. fn (Some thisArg))"

definition bound :: "('t option \<Rightarrow> 'f) \<Rightarrow> 't option \<Rightarrow> 'f" where
  "bound fn thisArg =
     (let fn = (case thisArg of None \<Rightarrow> fn | Some t \<Rightarrow> bind fn t) in fn None)"

text \<open>
  A promise is described by how it ends on the single-threaded event loop: fulfilled or
  rejected at a tick of logical time, or never settled. Tick \<open>0\<close> is "already settled when
  it is created". Reactions to promises that settle at the same tick run in the order in
  which the reactions were registered.
\<close>

datatype 'a promise = Fulfilled nat 'a | Rejected nat error | Pending

fun settled :: "'a promise \<Rightarrow> bool" where
  "settled Pending = False"
| "settled _ = True"

fun settle_time :: "'a promise \<Rightarrow> nat" where
  "settle_time (Fulfilled t _) = t"
| "settle_time (Rejected t _) = t"
| "settle_time Pending = 0"

text \<open>
  \<^verbatim>\<open>p.then(cb)\<close> for a callback without effects on shared state: the derived promise takes
  the callback's result, or its throw as a rejection; a rejection of \<open>p\<close> passes through.
\<close>

fun then_pure :: "'a promise \<Rightarrow> ('a \<Rightarrow> error + 'b) \<Rightarrow> 'b promise" where
  "then_pure (Fulfilled t x) cb = (case cb x of Inr y \<Rightarrow> Fulfilled t y | Inl e \<Rightarrow> Rejected t e)"
| "then_pure (Rejected t e) cb = Rejected t e"
| "then_pure Pending cb = Pending"

fun catch :: "'a promise \<Rightarrow> (error \<Rightarrow> 'a) \<Rightarrow> 'a promise" where
  "catch (Fulfilled t x) cb = Fulfilled t x"
| "catch (Rejected t e) cb = Fulfilled t (cb e)"
| "catch Pending cb = Pending"

text \<open>
  \<^verbatim>\<open>Promise.any\<close>: fulfilled by the first input to be fulfilled (the earliest tick; among
  equal ticks the one that comes first in the array); rejected with an
  \<^verbatim>\<open>AggregateError\<close> once every input is rejected (at once for the empty array); pending
  otherwise.
\<close>

fun first_fulfilled :: "'a promise list \<Rightarrow> (nat \<times> 'a) option" where
  "first_fulfilled [] = None"
| "first_fulfilled (Fulfilled t x # ps) =
     (case first_fulfilled ps of
        None \<Rightarrow> Some (t, x)
      | Some (t', x') \<Rightarrow> if t' < t then Some (t', x') else Some (t, x))"
| "first_fulfilled (_ # ps) = first_fulfilled ps"

definition last_tick :: "'a promise list \<Rightarrow> nat" where
  "last_tick ps = fold max (map settle_time ps) 0"

definition Promise_any :: "'a promise list \<Rightarrow> 'a promise" where
  "Promise_any ps =
     (case first_fulfilled ps of
        Some (t, x) \<Rightarrow> Fulfilled t x
      | None \<Rightarrow> if list_all settled ps then Rejected (last_tick ps) AggregateError else Pending)"

text \<open>
  \<^verbatim>\<open>Promise.allSettled(items.map(item => p(item).then(cb)))\<close> with callbacks that write
  shared state: the callbacks of the fulfilled promises run in settlement order (stable
  in the array order), each on the state the previous one left; a rejected promise runs
  no callback. The aggregate is fulfilled once every input is settled.
\<close>

definition run_reactions ::
  "('i \<times> 'a promise) list \<Rightarrow> ('i \<Rightarrow> 'a \<Rightarrow> 's \<Rightarrow> 's) \<Rightarrow> 's \<Rightarrow> 's" where
  "run_reactions ps cb s =
     fold (\<lambda>(i, p) s. case p of Fulfilled t r \<Rightarrow> cb i r s | _ \<Rightarrow> s)
          (sort_key (\<lambda>(i, p). settle_time p) (filter (\<lambda>(i, p). settled p) ps)) s"

definition Promise_allSettled :: "'a promise list \<Rightarrow> 'b \<Rightarrow> 'b promise" where
  "Promise_allSettled ps result =
     (if list_all settled ps then Fulfilled (last_tick ps) result else Pending)"

text \<open>
  Reading an array at an index: out of range is \<^verbatim>\<open>undefined\<close>, never a throw.
\<close>

definition array_get :: "'a list \<Rightarrow> int \<Rightarrow> 'a option" where
  "array_get arr i = (if 0 \<le> i \<and> i < int (length arr) then Some (arr ! nat i) else None)"

section \<open>The class Collection\<close>

text \<open>
  The constructor's first argument: an array (\<^verbatim>\<open>Array.isArray(values)\<close>) of items, or any
  other iterable of key/value entries (another map, an entry iterator), which goes to
  \<^verbatim>\<open>super\<close> as it is. The property read \<^verbatim>\<open>item[name]\<close> is the parameter \<open>prop\<close>. An omitted
  argument (\<open>None\<close>) takes its default.
\<close>

datatype 'v values_arg = ArrayOf "'v list" | EntriesOf "(K \<times> 'v) list"

text \<open>
  Two kinds of items, with the property read of each: a plain object, as the list of its
  fields (a field it lacks reads \<^verbatim>\<open>undefined\<close>), and a two-element array \<^verbatim>\<open>[k, x]\<close>, whose
  properties are its indices and its length.
\<close>

definition obj_prop :: "(string \<times> K) list \<Rightarrow> string \<Rightarrow> K" where
  "obj_prop item name = (case map_of item name of None \<Rightarrow> KUndefined | Some k \<Rightarrow> k)"

definition pair_prop :: "K \<times> K \<Rightarrow> string \<Rightarrow> K" where
  "pair_prop item name =
     (if name = ''0'' then fst item
      else if name = ''1'' then snd item
      else if name = ''length'' then KNum 2
      else KUndefined)"

definition default_key :: "string option \<Rightarrow> string" where
  "default_key key_opt = (case key_opt of None \<Rightarrow> ''id'' | Some k \<Rightarrow> k)"

definition Collection_new ::
  "('v \<Rightarrow> string \<Rightarrow> K) \<Rightarrow> 'v values_arg option \<Rightarrow> string option \<Rightarrow> 'v Collection" where
  "Collection_new prop values_opt key_opt =
     (let values = (case values_opt of None \<Rightarrow> ArrayOf [] | Some vs \<Rightarrow> vs);
          key = default_key key_opt;
          data = (case values of
                    ArrayOf vs \<Rightarrow> map (\<lambda>v. (prop v key, v)) vs
                  | EntriesOf es \<Rightarrow> es)
      in \<lparr>entries = Map_new data, keyName = key\<rparr>)"

text \<open>
  \<^verbatim>\<open>new this.constructor[Symbol.species]([], this.keyName)\<close>, for the class itself: the
  constructor on the empty array, which reads no property of any item.
\<close>

definition species_new :: "string \<Rightarrow> 'w Collection" where
  "species_new key = Collection_new (\<lambda>_ _. KUndefined) (Some (ArrayOf [])) (Some key)"

definition toJSON :: "'v Collection \<Rightarrow> 'v list" where
  "toJSON c = map snd (entries c)"

text \<open>
  \<open>push\<close>, \<open>remove\<close> and \<open>reverse\<close> write the receiver and return \<^verbatim>\<open>this\<close>: the
  collection returned is the receiver after the call.
\<close>

definition push :: "('v \<Rightarrow> string \<Rightarrow> K) \<Rightarrow> 'v Collection \<Rightarrow> 'v list \<Rightarrow> 'v Collection" where
  "push prop c items = fold (\<lambda>item c. Map_set (prop item (keyName c)) item c) items c"

definition remove :: "('v \<Rightarrow> string \<Rightarrow> K) \<Rightarrow> 'v Collection \<Rightarrow> 'v list \<Rightarrow> 'v Collection" where
  "remove prop c items = fold (\<lambda>item c. Map_delete (prop item (keyName c)) c) items c"

fun find_loop ::
  "('v \<Rightarrow> K \<Rightarrow> 'v Collection \<Rightarrow> bool) \<Rightarrow> (K \<times> 'v) list \<Rightarrow> 'v Collection \<Rightarrow> 'v option" where
  "find_loop fn [] c = None"
| "find_loop fn ((key, val) # rest) c = (if fn val key c then Some val else find_loop fn rest c)"

definition find_coll ::
  "('t option \<Rightarrow> 'v \<Rightarrow> K \<Rightarrow> 'v Collection \<Rightarrow> bool) fn_arg \<Rightarrow> 't option \<Rightarrow> 'v Collection
     \<Rightarrow> error + 'v option" where
  "find_coll fn thisArg c =
     (case fn of
        NotCallable \<Rightarrow> Inl TypeError
      | Callable f \<Rightarrow> Inr (find_loop (bound f thisArg) (entries c) c))"

text \<open>
  What a call of the callable does in an asynchronous method: it throws (\<open>Inl\<close>), or it
  returns a promise, or it returns a value that is no promise and has no \<^verbatim>\<open>then\<close> (a
  boolean, \<^verbatim>\<open>undefined\<close>). The method calls \<^verbatim>\<open>.then\<close> on what the call returned, at once:
  on a value without \<^verbatim>\<open>then\<close> that call throws a \<^verbatim>\<open>TypeError\<close>.
\<close>

datatype 'r returned = Promise "'r promise" | NonThenable

fun then_target :: "error + 'r returned \<Rightarrow> error + 'r promise" where
  "then_target (Inl e) = Inl e"
| "then_target (Inr (Promise p)) = Inr p"
| "then_target (Inr NonThenable) = Inl TypeError"

text \<open>
  \<^verbatim>\<open>[...this].map(item => fn(item[1], item[0], this).then(...))\<close>: the callable is invoked
  on the entries in order, each time with the same collection, before anything is
  awaited. The list keeps each entry beside the promise its invocation returned. A
  throw inside the callback ends the \<^verbatim>\<open>map\<close> there: the entries after it are not invoked,
  the promises before it keep the reactions they were given, and the error leaves the
  method's body.
\<close>

fun invoke_loop ::
  "('v \<Rightarrow> K \<Rightarrow> 'v Collection \<Rightarrow> error + 'r returned) \<Rightarrow> (K \<times> 'v) list \<Rightarrow> 'v Collection
     \<Rightarrow> ((K \<times> 'v) \<times> 'r promise) list \<times> error option" where
  "invoke_loop fn [] c = ([], None)"
| "invoke_loop fn (item # rest) c =
     (case then_target (fn (snd item) (fst item) c) of
        Inl e \<Rightarrow> ([], Some e)
      | Inr p \<Rightarrow> (case invoke_loop fn rest c of (ps, err) \<Rightarrow> ((item, p) # ps, err)))"

definition invoke_all ::
  "('v \<Rightarrow> K \<Rightarrow> 'v Collection \<Rightarrow> error + 'r returned) \<Rightarrow> 'v Collection
     \<Rightarrow> ((K \<times> 'v) \<times> 'r promise) list \<times> error option" where
  "invoke_all fn c = invoke_loop fn (entries c) c"

text \<open>
  The asynchronous methods are declared \<^verbatim>\<open>async\<close>: the call itself always returns a
  promise, and a \<^verbatim>\<open>throw\<close> in the body rejects that promise, be it the argument check or
  an invocation of the callable that throws: the invocations stand in the body before
  \<^verbatim>\<open>Promise.any\<close>, \<^verbatim>\<open>Promise.allSettled\<close> and \<^verbatim>\<open>catch\<close> are reached.
\<close>

definition findAsync ::
  "('t option \<Rightarrow> 'v \<Rightarrow> K \<Rightarrow> 'v Collection \<Rightarrow> error + bool returned) fn_arg \<Rightarrow> 't option
     \<Rightarrow> 'v Collection \<Rightarrow> error + 'v option promise" where
  "findAsync fn thisArg c =
     (case fn of
        NotCallable \<Rightarrow> Inr (Rejected 0 TypeError)
      | Callable f \<Rightarrow>
          (case invoke_all (bound f thisArg) c of
             (ps, Some e) \<Rightarrow> Inr (Rejected 0 e)
           | (ps, None) \<Rightarrow>
               Inr (catch
                     (Promise_any
                       (map (\<lambda>(item, p).
                               then_pure p (\<lambda>r. if r then Inr (Some (snd item))
                                                  else Inl (Thrown ''e'')))
                            ps))
                     (\<lambda>_. None))))"

fun filter_loop ::
  "('v \<Rightarrow> K \<Rightarrow> 'v Collection \<Rightarrow> bool) \<Rightarrow> (K \<times> 'v) list \<Rightarrow> 'v Collection \<Rightarrow> 'v Collection
     \<Rightarrow> 'v Collection" where
  "filter_loop fn [] c results = results"
| "filter_loop fn ((key, val) # rest) c results =
     filter_loop fn rest c (if fn val key c then Map_set key val results else results)"

definition filter_coll ::
  "('t option \<Rightarrow> 'v \<Rightarrow> K \<Rightarrow> 'v Collection \<Rightarrow> bool) fn_arg \<Rightarrow> 't option \<Rightarrow> 'v Collection
     \<Rightarrow> error + 'v Collection" where
  "filter_coll fn thisArg c =
     (case fn of
        NotCallable \<Rightarrow> Inl TypeError
      | Callable f \<Rightarrow> Inr (filter_loop (bound f thisArg) (entries c) c (species_new (keyName c))))"

definition filterAsync ::
  "('t option \<Rightarrow> 'v \<Rightarrow> K \<Rightarrow> 'v Collection \<Rightarrow> error + bool returned) fn_arg \<Rightarrow> 't option
     \<Rightarrow> 'v Collection \<Rightarrow> error + 'v Collection promise" where
  "filterAsync fn thisArg c =
     (case fn of
        NotCallable \<Rightarrow> Inr (Rejected 0 TypeError)
      | Callable f \<Rightarrow>
          (let results = species_new (keyName c);
               (ps, err) = invoke_all (bound f thisArg) c;
               results = run_reactions ps
                           (\<lambda>item r results. if r then Map_set (fst item) (snd item) results
                                              else results)
                           results
           in Inr (case err of
                     Some e \<Rightarrow> Rejected 0 e
                   | None \<Rightarrow> Promise_allSettled (map snd ps) results)))"

fun map_loop ::
  "('v \<Rightarrow> K \<Rightarrow> 'v Collection \<Rightarrow> 'w) \<Rightarrow> (K \<times> 'v) list \<Rightarrow> 'v Collection \<Rightarrow> 'w Collection
     \<Rightarrow> 'w Collection" where
  "map_loop fn [] c coll = coll"
| "map_loop fn ((key, val) # rest) c coll = map_loop fn rest c (Map_set key (fn val key c) coll)"

definition map_coll ::
  "('t option \<Rightarrow> 'v \<Rightarrow> K \<Rightarrow> 'v Collection \<Rightarrow> 'w) fn_arg \<Rightarrow> 't option \<Rightarrow> 'v Collection
     \<Rightarrow> error + 'w Collection" where
  "map_coll fn thisArg c =
     (case fn of
        NotCallable \<Rightarrow> Inl TypeError
      | Callable f \<Rightarrow> Inr (map_loop (bound f thisArg) (entries c) c (species_new (keyName c))))"

definition mapAsync ::
  "('t option \<Rightarrow> 'v \<Rightarrow> K \<Rightarrow> 'v Collection \<Rightarrow> error + 'w returned) fn_arg \<Rightarrow> 't option
     \<Rightarrow> 'v Collection \<Rightarrow> error + 'w Collection promise" where
  "mapAsync fn thisArg c =
     (case fn of
        NotCallable \<Rightarrow> Inr (Rejected 0 TypeError)
      | Callable f \<Rightarrow>
          (let coll = species_new (keyName c);
               (ps, err) = invoke_all (bound f thisArg) c;
               coll = run_reactions ps (\<lambda>item v coll. Map_set (fst item) v coll) coll
           in Inr (case err of
                     Some e \<Rightarrow> Rejected 0 e
                   | None \<Rightarrow> Promise_allSettled (map snd ps) coll)))"

text \<open>
  \<^verbatim>\<open>Math.random()\<close> is the parameter \<open>rnd\<close>, a number in \<open>[0, 1)\<close>; the method returns
  \<open>None\<close> for \<^verbatim>\<open>undefined\<close>.
\<close>

definition randomItem :: "real \<Rightarrow> 'v Collection \<Rightarrow> 'v option" where
  "randomItem rnd c = array_get (map snd (entries c)) \<lfloor>rnd * real (Map_size c)\<rfloor>"

definition reverse :: "'v Collection \<Rightarrow> 'v Collection" where
  "reverse c =
     (let es = rev (entries c);
          c = Map_clear c
      in fold (\<lambda>(key, val) c. Map_set key val c) es c)"

text \<open>
  \<open>sweep\<close> iterates the live map while it deletes from it: an entry deleted at its own
  visit does not disturb the entries still to come. The callable sees the collection as
  it is at that visit. The method returns the count and leaves the receiver changed.
\<close>

fun sweep_loop ::
  "('v \<Rightarrow> K \<Rightarrow> 'v Collection \<Rightarrow> bool) \<Rightarrow> (K \<times> 'v) list \<Rightarrow> 'v Collection \<Rightarrow> 'v Collection" where
  "sweep_loop fn [] c = c"
| "sweep_loop fn ((key, val) # rest) c =
     sweep_loop fn rest (if fn val key c then Map_delete key c else c)"

definition sweep ::
  "('t option \<Rightarrow> 'v \<Rightarrow> K \<Rightarrow> 'v Collection \<Rightarrow> bool) fn_arg \<Rightarrow> 't option \<Rightarrow> 'v Collection
     \<Rightarrow> error + (int \<times> 'v Collection)" where
  "sweep fn thisArg c =
     (case fn of
        NotCallable \<Rightarrow> Inl TypeError
      | Callable f \<Rightarrow>
          (let previousSize = Map_size c;
               c' = sweep_loop (bound f thisArg) (entries c) c
           in Inr (int previousSize - int (Map_size c'), c')))"

text \<open>
  \<open>sweepAsync\<close> returns the promise of the count, and the receiver as the reactions
  leave it.
\<close>

definition sweepAsync ::
  "('t option \<Rightarrow> 'v \<Rightarrow> K \<Rightarrow> 'v Collection \<Rightarrow> error + bool returned) fn_arg \<Rightarrow> 't option
     \<Rightarrow> 'v Collection \<Rightarrow> error + (int promise \<times> 'v Collection)" where
  "sweepAsync fn thisArg c =
     (case fn of
        NotCallable \<Rightarrow> Inr (Rejected 0 TypeError, c)
      | Callable f \<Rightarrow>
          (let previousSize = Map_size c;
               (ps, err) = invoke_all (bound f thisArg) c;
               c' = run_reactions ps (\<lambda>item passed c. if passed then Map_delete (fst item) c else c) c
           in Inr (case err of
                     Some e \<Rightarrow> Rejected 0 e
                   | None \<Rightarrow> Promise_allSettled (map snd ps)
                               (int previousSize - int (Map_size c')),
                   c')))"

text \<open>
  For a sweep of the entries \<open>es\<close> that ends with the entries \<open>es'\<close>: the entries of the
  live collection at the visit of the \<open>i\<close>-th entry, namely the survivors among the
  entries already visited, then the entries from the \<open>i\<close>-th on.
\<close>

definition live_at :: "(K \<times> 'v) list \<Rightarrow> (K \<times> 'v) list \<Rightarrow> nat \<Rightarrow> (K \<times> 'v) list" where
  "live_at es es' i = filter (\<lambda>e. e \<in> set es') (take i es) @ drop i es"

section \<open>Facts about the ordered map\<close>

lemma set_entry_keys:
  "map fst (set_entry k v es) = (if k \<in> fst ` set es then map fst es else map fst es @ [k])"
  by (induction es) force+

lemma set_entry_fresh: "k \<notin> fst ` set es \<Longrightarrow> set_entry k v es = es @ [(k, v)]"
  by (induction es) auto

lemma distinct_set_entry: "distinct (map fst es) \<Longrightarrow> distinct (map fst (set_entry k v es))"
  by (simp add: set_entry_keys)

lemma map_of_set_entry: "map_of (set_entry k v es) = (map_of es)(k \<mapsto> v)"
  by (induction es) (auto simp: fun_eq_iff)

lemma length_set_entry:
  "length (set_entry k v es) = (if k \<in> fst ` set es then length es else Suc (length es))"
  by (induction es) force+

lemma delete_set_entry: "delete_entry k (set_entry k v es) = delete_entry k es"
  by (induction es) (auto simp: delete_entry_def)

lemma delete_entry_absent: "k \<notin> fst ` set es \<Longrightarrow> delete_entry k es = es"
  unfolding delete_entry_def by (rule filter_True) (auto simp: image_iff)

lemma delete_entry_here:
  "k \<notin> fst ` set xs \<Longrightarrow> k \<notin> fst ` set ys \<Longrightarrow> delete_entry k (xs @ (k, v) # ys) = xs @ ys"
  using delete_entry_absent [of k xs] delete_entry_absent [of k ys]
  by (simp add: delete_entry_def)

lemma length_delete_present:
  "distinct (map fst es) \<Longrightarrow> k \<in> fst ` set es \<Longrightarrow> Suc (length (delete_entry k es)) = length es"
proof (induction es)
  case Nil
  then show ?case by simp
next
  case (Cons e es)
  show ?case
  proof (cases "fst e = k")
    case True
    with Cons.prems have "k \<notin> fst ` set es" by auto
    then have "delete_entry k es = es" by (rule delete_entry_absent)
    then show ?thesis using True by (simp add: delete_entry_def)
  next
    case False
    with Cons.prems have "k \<in> fst ` set es" and "distinct (map fst es)" by auto
    with Cons.IH show ?thesis using False by (simp add: delete_entry_def)
  qed
qed

lemma fold_set_entry_distinct:
  "distinct (map fst (acc @ es)) \<Longrightarrow> fold (\<lambda>(k, v). set_entry k v) es acc = acc @ es"
proof (induction es arbitrary: acc)
  case Nil
  then show ?case by simp
next
  case (Cons e es)
  obtain k v where e: "e = (k, v)" by (cases e)
  from Cons.prems have fresh: "k \<notin> fst ` set acc" by (auto simp: e)
  from Cons.prems have d: "distinct (map fst ((acc @ [(k, v)]) @ es))" by (simp add: e)
  show ?case using Cons.IH [OF d] by (simp add: e set_entry_fresh [OF fresh])
qed

lemma Map_new_distinct: "distinct (map fst es) \<Longrightarrow> Map_new es = es"
  using fold_set_entry_distinct [of "[]" es] by (simp add: Map_new_def)

lemma fold_set_entry_map_of:
  "map_of (fold (\<lambda>(k, v). set_entry k v) es acc) = map_of (rev es @ acc)"
  by (induction es arbitrary: acc) (auto simp: map_of_set_entry fun_eq_iff map_add_def split: option.splits)

lemma remdups_drop_known: "k \<in> set ys \<Longrightarrow> remdups (xs @ k # ys) = remdups (xs @ ys)"
  by (induction xs) auto

lemma fold_set_entry_keys:
  "map fst (fold (\<lambda>(k, v). set_entry k v) es acc) = rev (remdups (rev (map fst acc @ map fst es)))"
  if "distinct (map fst acc)"
  using that
proof (induction es arbitrary: acc)
  case Nil
  then show ?case by (simp add: distinct_remdups_id)
next
  case (Cons e es)
  obtain k v where e: "e = (k, v)" by (cases e)
  have d: "distinct (map fst (set_entry k v acc))"
    using Cons.prems by (rule distinct_set_entry)
  show ?case
  proof (cases "k \<in> fst ` set acc")
    case True
    then have "k \<in> set (rev (map fst acc))" by simp
    then have "remdups (rev (map fst es) @ k # rev (map fst acc)) =
        remdups (rev (map fst es) @ rev (map fst acc))"
      by (rule remdups_drop_known)
    then show ?thesis using Cons.IH [OF d] True by (simp add: e set_entry_keys)
  next
    case False
    then show ?thesis using Cons.IH [OF d] by (simp add: e set_entry_keys)
  qed
qed

lemma Map_new_keys: "map fst (Map_new data) = rev (remdups (rev (map fst data)))"
  using fold_set_entry_keys [of "[]" data] by (simp add: Map_new_def)

lemma Map_new_length: "length (Map_new data) = card (fst ` set data)"
proof -
  have "length (Map_new data) = length (map fst (Map_new data))" by simp
  also have "\<dots> = length (remdups (rev (map fst data)))" by (simp only: Map_new_keys length_rev)
  also have "\<dots> = card (set (rev (map fst data)))" by (rule length_remdups_card_conv)
  finally show ?thesis by simp
qed

lemma Map_new_map_of: "map_of (Map_new data) = map_of (rev data)"
  by (simp add: Map_new_def fold_set_entry_map_of)

lemma Map_new_unique: "distinct (map fst (Map_new data))"
  by (simp add: Map_new_keys)

section \<open>Construction and serialisation\<close>

text \<open>
  C5 (amended). Construction from an array derives each item's key by reading the key
  field (\<open>id\<close> by default) off the item; construction from an iterable of key/value
  entries that is not an array takes the entries as they are. In both cases the keys of
  the collection are the distinct keys in the order of their first occurrence, the size
  is the number of distinct keys, and the value of a key is the last one written to it.
  An array is always read as raw items, also when its elements are key/value pairs.
\<close>

theorem Collection_new_entries:
  "keyName (Collection_new prop (Some (ArrayOf vs)) key_opt) = default_key key_opt
   \<and> map fst (entries (Collection_new prop (Some (ArrayOf vs)) key_opt)) =
       rev (remdups (rev (map (\<lambda>v. prop v (default_key key_opt)) vs)))
   \<and> Map_size (Collection_new prop (Some (ArrayOf vs)) key_opt) =
       card (set (map (\<lambda>v. prop v (default_key key_opt)) vs))
   \<and> map_of (entries (Collection_new prop (Some (ArrayOf vs)) key_opt)) =
       map_of (rev (map (\<lambda>v. (prop v (default_key key_opt), v)) vs))
   \<and> keyName (Collection_new prop (Some (EntriesOf es)) key_opt) = default_key key_opt
   \<and> map fst (entries (Collection_new prop (Some (EntriesOf es)) key_opt)) =
       rev (remdups (rev (map fst es)))
   \<and> Map_size (Collection_new prop (Some (EntriesOf es)) key_opt) = card (set (map fst es))
   \<and> map_of (entries (Collection_new prop (Some (EntriesOf es)) key_opt)) = map_of (rev es)
   \<and> unique_keys (Collection_new prop (Some (ArrayOf vs)) key_opt)
   \<and> unique_keys (Collection_new prop (Some (EntriesOf es)) key_opt)"
  by (simp add: Collection_new_def Map_size_def unique_keys_def Map_new_keys Map_new_length
      Map_new_map_of comp_def image_image Let_def)

text \<open>
  C5 as stated fails on an array of key/value pairs: each pair is taken as a raw item,
  its key is the pair's \<open>id\<close> property, which is \<^verbatim>\<open>undefined\<close>; two pairs with two keys
  give a collection of one entry.
\<close>

theorem Collection_new_array_of_pairs:
  "Map_size (Collection_new pair_prop
       (Some (ArrayOf [(KStr ''a'', KNum 1), (KStr ''b'', KNum 2)])) None)
     \<noteq> card (fst ` set [(KStr ''a'', KNum 1), (KStr ''b'', KNum 2)])
   \<and> entries (Collection_new pair_prop
       (Some (ArrayOf [(KStr ''a'', KNum 1), (KStr ''b'', KNum 2)])) None)
     = [(KUndefined, (KStr ''b'', KNum 2))]"
  by (simp add: Collection_new_def Map_size_def Map_new_def default_key_def pair_prop_def Let_def)

text \<open>
  C9 (amended). For every sequence of raw values whose keys are pairwise distinct,
  \<open>toJSON\<close> of the collection constructed from the sequence is the sequence.
\<close>

theorem toJSON_roundtrip:
  assumes "distinct (map (\<lambda>v. prop v (default_key key_opt)) vs)"
  shows "toJSON (Collection_new prop (Some (ArrayOf vs)) key_opt) = vs"
proof -
  have "distinct (map fst (map (\<lambda>v. (prop v (default_key key_opt), v)) vs))"
    using assms by (simp add: comp_def)
  then have "Map_new (map (\<lambda>v. (prop v (default_key key_opt), v)) vs) =
      map (\<lambda>v. (prop v (default_key key_opt), v)) vs"
    by (rule Map_new_distinct)
  then show ?thesis by (simp add: toJSON_def Collection_new_def comp_def Let_def)
qed

theorem toJSON_roundtrip_witness:
  "toJSON (Collection_new obj_prop
      (Some (ArrayOf [[(''id'', KNum 1), (''n'', KStr ''a'')], [(''id'', KNum 2), (''n'', KStr ''b'')]]))
      None)
   = [[(''id'', KNum 1), (''n'', KStr ''a'')], [(''id'', KNum 2), (''n'', KStr ''b'')]]"
  using toJSON_roundtrip [of obj_prop None
      "[[(''id'', KNum 1), (''n'', KStr ''a'')], [(''id'', KNum 2), (''n'', KStr ''b'')]]"]
  by (simp add: obj_prop_def default_key_def)

text \<open>
  C9 as stated fails when two values share a key: the later one replaces the earlier.
\<close>

theorem toJSON_duplicate_keys:
  "toJSON (Collection_new obj_prop
      (Some (ArrayOf [[(''id'', KNum 1), (''n'', KStr ''a'')], [(''id'', KNum 1), (''n'', KStr ''b'')]]))
      None)
   \<noteq> [[(''id'', KNum 1), (''n'', KStr ''a'')], [(''id'', KNum 1), (''n'', KStr ''b'')]]"
  by (simp add: toJSON_def Collection_new_def Map_new_def obj_prop_def default_key_def Let_def)

section \<open>push, remove and reverse\<close>

lemma push_one: "push prop c [item] = Map_set (prop item (keyName c)) item c"
  by (simp add: push_def)

lemma remove_one: "remove prop c [item] = Map_delete (prop item (keyName c)) c"
  by (simp add: remove_def)

text \<open>
  C7 (amended). \<open>push\<close> of an item followed by \<open>remove\<close> of the same item leaves the
  collection without that item's key and with every other entry unchanged. When the
  key was not in the collection before, the collection is restored, and so is its size;
  when it was, the size is one less than before the push.
\<close>

theorem push_then_remove:
  "entries (remove prop (push prop c [item]) [item]) =
     filter (\<lambda>e. fst e \<noteq> prop item (keyName c)) (entries c)
   \<and> keyName (remove prop (push prop c [item]) [item]) = keyName c
   \<and> (prop item (keyName c) \<notin> fst ` set (entries c) \<longrightarrow>
        remove prop (push prop c [item]) [item] = c)
   \<and> (unique_keys c \<and> prop item (keyName c) \<in> fst ` set (entries c) \<longrightarrow>
        Suc (Map_size (remove prop (push prop c [item]) [item])) = Map_size c)"
proof -
  let ?k = "prop item (keyName c)"
  have e: "entries (remove prop (push prop c [item]) [item]) = delete_entry ?k (entries c)"
    by (simp add: push_one remove_one Map_set_def Map_delete_def delete_set_entry)
  have k: "keyName (remove prop (push prop c [item]) [item]) = keyName c"
    by (simp add: push_one remove_one Map_set_def Map_delete_def)
  have a: "remove prop (push prop c [item]) [item] = c" if "?k \<notin> fst ` set (entries c)"
    using e k delete_entry_absent [OF that] by (simp add: Collection.equality)
  have b: "Suc (Map_size (remove prop (push prop c [item]) [item])) = Map_size c"
    if "unique_keys c \<and> ?k \<in> fst ` set (entries c)"
    using that length_delete_present [of "entries c" ?k] by (simp add: Map_size_def e unique_keys_def)
  from e k a b show ?thesis by (simp add: delete_entry_def)
qed

theorem push_then_remove_witness:
  "remove obj_prop (push obj_prop \<lparr>entries = [(KNum 1, [(''id'', KNum 1)])], keyName = ''id''\<rparr>
       [[(''id'', KNum 2)]]) [[(''id'', KNum 2)]]
     = \<lparr>entries = [(KNum 1, [(''id'', KNum 1)])], keyName = ''id''\<rparr>
   \<and> Suc (Map_size (remove obj_prop (push obj_prop \<lparr>entries = [(KNum 1, [(''id'', KNum 1)])], keyName = ''id''\<rparr>
       [[(''id'', KNum 1)]]) [[(''id'', KNum 1)]]))
     = Map_size \<lparr>entries = [(KNum 1, [(''id'', KNum 1)])], keyName = ''id''\<rparr>"
  using push_then_remove [of obj_prop "\<lparr>entries = [(KNum 1, [(''id'', KNum 1)])], keyName = ''id''\<rparr>"
      "[(''id'', KNum 2)]"]
    push_then_remove [of obj_prop "\<lparr>entries = [(KNum 1, [(''id'', KNum 1)])], keyName = ''id''\<rparr>"
      "[(''id'', KNum 1)]"]
  by (simp add: obj_prop_def unique_keys_def)

text \<open>
  C7 as stated fails when the item's key is already in the collection: \<open>push\<close> writes
  over the entry, \<open>remove\<close> deletes it, and the size is one less than before.
\<close>

theorem overwrite_then_remove_shrinks:
  "Map_size (remove obj_prop (push obj_prop \<lparr>entries = [(KNum 1, [(''id'', KNum 1)])], keyName = ''id''\<rparr>
       [[(''id'', KNum 1)]]) [[(''id'', KNum 1)]])
     \<noteq> Map_size \<lparr>entries = [(KNum 1, [(''id'', KNum 1)])], keyName = ''id''\<rparr>"
  by (simp add: push_def remove_def Map_set_def Map_delete_def Map_size_def obj_prop_def
      delete_entry_def)

lemma reverse_entries: "unique_keys c \<Longrightarrow> reverse c = c\<lparr>entries := rev (entries c)\<rparr>"
proof -
  assume "unique_keys c"
  then have d: "distinct (map fst ([] @ rev (entries c)))" by (simp add: unique_keys_def rev_map [symmetric])
  have f: "fold (\<lambda>(key, val) c. Map_set key val c) es c0 =
      c0\<lparr>entries := fold (\<lambda>(k, v). set_entry k v) es (entries c0)\<rparr>" for es and c0 :: "'a Collection"
    by (induction es arbitrary: c0) (auto simp: Map_set_def)
  show ?thesis
    using fold_set_entry_distinct [OF d] by (simp add: reverse_def Map_clear_def f)
qed

text \<open>
  C8. \<open>reverse\<close> leaves the receiver with its entries in the reverse of their previous
  order (the key field unchanged) and returns it; applied twice it restores the
  collection.
\<close>

theorem reverse_involution:
  assumes "unique_keys c"
  shows "entries (reverse c) = rev (entries c) \<and> keyName (reverse c) = keyName c
    \<and> reverse (reverse c) = c"
proof -
  have r: "reverse c = c\<lparr>entries := rev (entries c)\<rparr>" using assms by (rule reverse_entries)
  have "unique_keys (c\<lparr>entries := rev (entries c)\<rparr>)" using assms by (simp add: unique_keys_def rev_map [symmetric])
  then have "reverse (c\<lparr>entries := rev (entries c)\<rparr>) = c" by (simp add: reverse_entries)
  with r show ?thesis by simp
qed

theorem reverse_involution_witness:
  "entries (reverse \<lparr>entries = [(KStr ''a'', 1::nat), (KStr ''b'', 2), (KStr ''c'', 3)], keyName = ''id''\<rparr>)
     = [(KStr ''c'', 3), (KStr ''b'', 2), (KStr ''a'', 1)]
   \<and> reverse (reverse \<lparr>entries = [(KStr ''a'', 1::nat), (KStr ''b'', 2), (KStr ''c'', 3)], keyName = ''id''\<rparr>)
     = \<lparr>entries = [(KStr ''a'', 1), (KStr ''b'', 2), (KStr ''c'', 3)], keyName = ''id''\<rparr>"
  using reverse_involution [of "\<lparr>entries = [(KStr ''a'', 1::nat), (KStr ''b'', 2), (KStr ''c'', 3)], keyName = ''id''\<rparr>"]
  by (simp add: unique_keys_def)

section \<open>sweep\<close>

lemma sweep_loop_general:
  assumes "entries c = kept @ rest" and "distinct (map fst (kept @ rest))"
  shows "\<exists>s. sweep_loop f rest c = c\<lparr>entries := kept @ s\<rparr>
     \<and> s = filter (\<lambda>e. e \<in> set s) rest
     \<and> (\<forall>j<length rest. (rest ! j \<in> set s) =
          (\<not> f (snd (rest ! j)) (fst (rest ! j))
               (c\<lparr>entries := kept @ filter (\<lambda>e. e \<in> set s) (take j rest) @ drop j rest\<rparr>)))"
  using assms
proof (induction rest arbitrary: kept c)
  case Nil
  then show ?case by simp
next
  case (Cons e rest)
  obtain k v where e: "e = (k, v)" by (cases e)
  from Cons.prems have fresh: "k \<notin> fst ` set kept" "k \<notin> fst ` set rest" by (auto simp: e)
  then have notin: "(k, v) \<notin> set rest" by (auto simp: image_iff)
  show ?case
  proof (cases "f v k c")
    case True
    let ?c1 = "Map_delete k c"
    have c1: "?c1 = c\<lparr>entries := kept @ rest\<rparr>"
      using Cons.prems(1) delete_entry_here [OF fresh, of v] by (simp add: Map_delete_def e)
    then have e1: "entries ?c1 = kept @ rest" by simp
    from Cons.prems have d1: "distinct (map fst (kept @ rest))" by simp
    from Cons.IH [OF e1 d1] obtain s where
      s1: "sweep_loop f rest ?c1 = ?c1\<lparr>entries := kept @ s\<rparr>" and
      s2: "s = filter (\<lambda>e. e \<in> set s) rest" and
      s3: "\<forall>j<length rest. (rest ! j \<in> set s) =
          (\<not> f (snd (rest ! j)) (fst (rest ! j))
               (?c1\<lparr>entries := kept @ filter (\<lambda>e. e \<in> set s) (take j rest) @ drop j rest\<rparr>))"
      by blast
    from s2 have sub: "set s \<subseteq> set rest" by (metis filter_is_subset)
    with notin have ns: "(k, v) \<notin> set s" by blast
    have c: "c\<lparr>entries := kept @ (k, v) # rest\<rparr> = c" using Cons.prems(1) by (simp add: e)
    have "sweep_loop f (e # rest) c = c\<lparr>entries := kept @ s\<rparr>"
      using True s1 c1 by (simp add: e)
    moreover have "s = filter (\<lambda>e. e \<in> set s) (e # rest)" using s2 ns by (simp add: e)
    moreover have "(((e # rest) ! j) \<in> set s) =
          (\<not> f (snd ((e # rest) ! j)) (fst ((e # rest) ! j))
               (c\<lparr>entries := kept @ filter (\<lambda>e. e \<in> set s) (take j (e # rest)) @ drop j (e # rest)\<rparr>))"
      if "j < length (e # rest)" for j
    proof (cases j)
      case 0
      then show ?thesis using True ns c by (simp add: e)
    next
      case (Suc j')
      with that have "j' < length rest" by simp
      with s3 show ?thesis using ns by (simp add: Suc e c1)
    qed
    ultimately show ?thesis by blast
  next
    case False
    have e1: "entries c = (kept @ [(k, v)]) @ rest" using Cons.prems(1) by (simp add: e)
    from Cons.prems have d1: "distinct (map fst ((kept @ [(k, v)]) @ rest))" by (simp add: e)
    from Cons.IH [OF e1 d1] obtain s where
      s1: "sweep_loop f rest c = c\<lparr>entries := (kept @ [(k, v)]) @ s\<rparr>" and
      s2: "s = filter (\<lambda>e. e \<in> set s) rest" and
      s3: "\<forall>j<length rest. (rest ! j \<in> set s) =
          (\<not> f (snd (rest ! j)) (fst (rest ! j))
               (c\<lparr>entries := (kept @ [(k, v)]) @ filter (\<lambda>e. e \<in> set s) (take j rest) @ drop j rest\<rparr>))"
      by blast
    have same: "filter (\<lambda>x. x = (k, v) \<or> x \<in> set s) xs = filter (\<lambda>x. x \<in> set s) xs"
      if "set xs \<subseteq> set rest" for xs
      using that notin by (intro filter_cong) auto
    have c: "c\<lparr>entries := kept @ (k, v) # rest\<rparr> = c" using Cons.prems(1) by (simp add: e)
    have "sweep_loop f (e # rest) c = c\<lparr>entries := kept @ ((k, v) # s)\<rparr>"
      using False s1 by (simp add: e)
    moreover have "(k, v) # s = filter (\<lambda>x. x \<in> set ((k, v) # s)) (e # rest)"
      using s2 same [of rest] by (simp add: e)
    moreover have "(((e # rest) ! j) \<in> set ((k, v) # s)) =
          (\<not> f (snd ((e # rest) ! j)) (fst ((e # rest) ! j))
               (c\<lparr>entries := kept @ filter (\<lambda>x. x \<in> set ((k, v) # s)) (take j (e # rest))
                   @ drop j (e # rest)\<rparr>))"
      if "j < length (e # rest)" for j
    proof (cases j)
      case 0
      then show ?thesis using False c by (simp add: e)
    next
      case (Suc j')
      with that have j': "j' < length rest" by simp
      then have "rest ! j' \<noteq> (k, v)" using notin by (metis nth_mem)
      moreover have "set (take j' rest) \<subseteq> set rest" by (rule set_take_subset)
      ultimately show ?thesis using s3 j' same [of "take j' rest"] by (simp add: Suc e)
    qed
    ultimately show ?thesis by blast
  qed
qed

lemma sweep_characterised:
  assumes "unique_keys c"
  shows "\<exists>n c'. sweep (Callable f) thisArg c = Inr (n, c')
     \<and> keyName c' = keyName c
     \<and> entries c' = filter (\<lambda>e. e \<in> set (entries c')) (entries c)
     \<and> (\<forall>i<Map_size c. (entries c ! i \<in> set (entries c')) =
          (\<not> bound f thisArg (snd (entries c ! i)) (fst (entries c ! i))
               (c\<lparr>entries := live_at (entries c) (entries c') i\<rparr>)))
     \<and> n = int (Map_size c) - int (Map_size c')
     \<and> n = int (length (filter (\<lambda>e. e \<notin> set (entries c')) (entries c)))
     \<and> ((\<forall>v k c1 c2. bound f thisArg v k c1 = bound f thisArg v k c2) \<longrightarrow>
          entries c' = filter (\<lambda>e. \<not> bound f thisArg (snd e) (fst e) c) (entries c))"
proof -
  let ?g = "bound f thisArg"
  have e0: "entries c = [] @ entries c" by simp
  have d0: "distinct (map fst ([] @ entries c))" using assms by (simp add: unique_keys_def)
  from sweep_loop_general [OF e0 d0, of ?g] obtain s where
    s1: "sweep_loop ?g (entries c) c = c\<lparr>entries := s\<rparr>" and
    s2: "s = filter (\<lambda>e. e \<in> set s) (entries c)" and
    s3: "\<forall>j<length (entries c). (entries c ! j \<in> set s) =
          (\<not> ?g (snd (entries c ! j)) (fst (entries c ! j))
               (c\<lparr>entries := filter (\<lambda>e. e \<in> set s) (take j (entries c)) @ drop j (entries c)\<rparr>))"
    by auto
  let ?c' = "c\<lparr>entries := s\<rparr>"
  let ?n = "int (Map_size c) - int (Map_size ?c')"
  have r: "sweep (Callable f) thisArg c = Inr (?n, ?c')"
    by (simp add: sweep_def Let_def s1)
  have cnt: "?n = int (length (filter (\<lambda>e. e \<notin> set s) (entries c)))"
  proof -
    have "length (filter (\<lambda>e. e \<in> set s) (entries c))
        + length (filter (\<lambda>e. \<not> e \<in> set s) (entries c)) = length (entries c)"
      by (rule sum_length_filter_compl)
    with s2 have "length s + length (filter (\<lambda>e. e \<notin> set s) (entries c)) = length (entries c)"
      by simp
    then show ?thesis by (simp add: Map_size_def)
  qed
  have indep: "s = filter (\<lambda>e. \<not> ?g (snd e) (fst e) c) (entries c)"
    if h: "\<forall>v k c1 c2. ?g v k c1 = ?g v k c2"
  proof -
    have "(e \<in> set s) = (\<not> ?g (snd e) (fst e) c)" if "e \<in> set (entries c)" for e
    proof -
      from that obtain j where j: "j < length (entries c)" "entries c ! j = e"
        by (auto simp: in_set_conv_nth)
      with s3 have "(e \<in> set s) = (\<not> ?g (snd e) (fst e)
          (c\<lparr>entries := filter (\<lambda>e. e \<in> set s) (take j (entries c)) @ drop j (entries c)\<rparr>))"
        by auto
      with h show ?thesis by blast
    qed
    then have "filter (\<lambda>e. e \<in> set s) (entries c) = filter (\<lambda>e. \<not> ?g (snd e) (fst e) c) (entries c)"
      by (intro filter_cong) auto
    with s2 show ?thesis by simp
  qed
  show ?thesis
  proof (intro exI conjI)
    show "sweep (Callable f) thisArg c = Inr (?n, ?c')" by (rule r)
    show "keyName ?c' = keyName c" by simp
    show "entries ?c' = filter (\<lambda>e. e \<in> set (entries ?c')) (entries c)" using s2 by simp
    show "\<forall>i<Map_size c. (entries c ! i \<in> set (entries ?c')) =
          (\<not> ?g (snd (entries c ! i)) (fst (entries c ! i))
               (c\<lparr>entries := live_at (entries c) (entries ?c') i\<rparr>))"
      using s3 by (simp add: live_at_def Map_size_def)
    show "?n = int (Map_size c) - int (Map_size ?c')" by simp
    show "?n = int (length (filter (\<lambda>e. e \<notin> set (entries ?c')) (entries c)))" using cnt by simp
    show "(\<forall>v k c1 c2. ?g v k c1 = ?g v k c2) \<longrightarrow>
          entries ?c' = filter (\<lambda>e. \<not> ?g (snd e) (fst e) c) (entries c)"
      using indep by simp
  qed
qed

text \<open>
  C6. \<open>sweep\<close> returns the count and leaves the receiver with exactly the entries for
  which the predicate was falsy at their visit, in their order: the \<open>i\<close>-th entry
  survives if and only if the predicate is falsy on it and on the live collection of
  that visit. The count is the size before minus the size after, which is the number of
  entries deleted. For a predicate that does not depend on the collection the survivors
  are the entries on which it is falsy; so the constant-true predicate empties the
  collection and returns its size, the constant-false one returns \<open>0\<close> and changes
  nothing.
\<close>

theorem sweep_deletes:
  assumes "unique_keys c"
  shows "(\<exists>n c'. sweep (Callable f) thisArg c = Inr (n, c')
     \<and> keyName c' = keyName c
     \<and> entries c' = filter (\<lambda>e. e \<in> set (entries c')) (entries c)
     \<and> (\<forall>i<Map_size c. (entries c ! i \<in> set (entries c')) =
          (\<not> bound f thisArg (snd (entries c ! i)) (fst (entries c ! i))
               (c\<lparr>entries := live_at (entries c) (entries c') i\<rparr>)))
     \<and> n = int (Map_size c) - int (Map_size c')
     \<and> n = int (length (filter (\<lambda>e. e \<notin> set (entries c')) (entries c)))
     \<and> ((\<forall>v k c1 c2. bound f thisArg v k c1 = bound f thisArg v k c2) \<longrightarrow>
          entries c' = filter (\<lambda>e. \<not> bound f thisArg (snd e) (fst e) c) (entries c)))
   \<and> sweep (Callable (\<lambda>_ _ _ _. True)) thisArg c = Inr (int (Map_size c), c\<lparr>entries := []\<rparr>)
   \<and> sweep (Callable (\<lambda>_ _ _ _. False)) thisArg c = Inr (0, c)"
proof (intro conjI)
  show "\<exists>n c'. sweep (Callable f) thisArg c = Inr (n, c')
     \<and> keyName c' = keyName c
     \<and> entries c' = filter (\<lambda>e. e \<in> set (entries c')) (entries c)
     \<and> (\<forall>i<Map_size c. (entries c ! i \<in> set (entries c')) =
          (\<not> bound f thisArg (snd (entries c ! i)) (fst (entries c ! i))
               (c\<lparr>entries := live_at (entries c) (entries c') i\<rparr>)))
     \<and> n = int (Map_size c) - int (Map_size c')
     \<and> n = int (length (filter (\<lambda>e. e \<notin> set (entries c')) (entries c)))
     \<and> ((\<forall>v k c1 c2. bound f thisArg v k c1 = bound f thisArg v k c2) \<longrightarrow>
          entries c' = filter (\<lambda>e. \<not> bound f thisArg (snd e) (fst e) c) (entries c))"
    using assms by (rule sweep_characterised)
next
  let ?T = "\<lambda>(_ :: 'b option) (_ :: 'a) (_ :: K) (_ :: 'a Collection). True"
  from sweep_characterised [OF assms, of ?T thisArg] obtain n c' where
    r: "sweep (Callable ?T) thisArg c = Inr (n, c')" and k: "keyName c' = keyName c"
    and n: "n = int (Map_size c) - int (Map_size c')"
    and i: "(\<forall>v k c1 c2. bound ?T thisArg v k c1 = bound ?T thisArg v k c2) \<longrightarrow>
          entries c' = filter (\<lambda>e. \<not> bound ?T thisArg (snd e) (fst e) c) (entries c)"
    by blast
  have b: "bound ?T thisArg = (\<lambda>_ _ _. True)"
    by (cases thisArg) (simp_all add: bound_def bind_def)
  from i b have "entries c' = []" by simp
  with k have "c' = c\<lparr>entries := []\<rparr>" by (simp add: Collection.equality)
  with r n show "sweep (Callable ?T) thisArg c = Inr (int (Map_size c), c\<lparr>entries := []\<rparr>)"
    by (simp add: Map_size_def)
next
  let ?F = "\<lambda>(_ :: 'b option) (_ :: 'a) (_ :: K) (_ :: 'a Collection). False"
  from sweep_characterised [OF assms, of ?F thisArg] obtain n c' where
    r: "sweep (Callable ?F) thisArg c = Inr (n, c')" and k: "keyName c' = keyName c"
    and n: "n = int (Map_size c) - int (Map_size c')"
    and i: "(\<forall>v k c1 c2. bound ?F thisArg v k c1 = bound ?F thisArg v k c2) \<longrightarrow>
          entries c' = filter (\<lambda>e. \<not> bound ?F thisArg (snd e) (fst e) c) (entries c)"
    by blast
  have b: "bound ?F thisArg = (\<lambda>_ _ _. False)"
    by (cases thisArg) (simp_all add: bound_def bind_def)
  from i b have "entries c' = entries c" by simp
  with k have "c' = c" by (simp add: Collection.equality)
  with r n show "sweep (Callable ?F) thisArg c = Inr (0, c)" by simp
qed

theorem sweep_deletes_witness:
  "(\<exists>n c'. sweep (Callable (\<lambda>(this :: unit option) (v :: nat) k c. even v)) None
        \<lparr>entries = [(KNum 1, 10), (KNum 2, 21), (KNum 3, 30)], keyName = ''id''\<rparr> = Inr (n, c')
     \<and> entries c' = [(KNum 2, 21)] \<and> n = 2)
   \<and> sweep (Callable (\<lambda>(this :: unit option) (v :: nat) k c. True)) None
        \<lparr>entries = [(KNum 1, 10), (KNum 2, 21), (KNum 3, 30)], keyName = ''id''\<rparr>
      = Inr (3, \<lparr>entries = [], keyName = ''id''\<rparr>)
   \<and> sweep (Callable (\<lambda>(this :: unit option) (v :: nat) k c. False)) None
        \<lparr>entries = [(KNum 1, 10), (KNum 2, 21), (KNum 3, 30)], keyName = ''id''\<rparr>
      = Inr (0, \<lparr>entries = [(KNum 1, 10), (KNum 2, 21), (KNum 3, 30)], keyName = ''id''\<rparr>)"
  using sweep_deletes [of "\<lparr>entries = [(KNum 1, 10), (KNum 2, 21), (KNum 3, 30)], keyName = ''id''\<rparr>"
      "\<lambda>(this :: unit option) (v :: nat) k c. even v" None]
  by (auto simp: unique_keys_def bound_def Map_size_def)

section \<open>The argument check\<close>

text \<open>
  C3 (amended). With an argument that is not callable, \<open>find\<close>, \<open>filter\<close>, \<open>map\<close> and
  \<open>sweep\<close> throw a \<^verbatim>\<open>TypeError\<close>; \<open>findAsync\<close>, \<open>filterAsync\<close>, \<open>mapAsync\<close> and
  \<open>sweepAsync\<close> do not throw: they return a promise that is already rejected with a
  \<^verbatim>\<open>TypeError\<close>. In all eight the outcome does not depend on the entries, and the
  receiver is left as it was.
\<close>

theorem not_callable_outcome:
  "find_coll NotCallable thisArg c = Inl TypeError
   \<and> filter_coll NotCallable thisArg c = Inl TypeError
   \<and> map_coll NotCallable thisArg c = Inl TypeError
   \<and> sweep NotCallable thisArg c = Inl TypeError
   \<and> findAsync NotCallable thisArg c = Inr (Rejected 0 TypeError)
   \<and> filterAsync NotCallable thisArg c = Inr (Rejected 0 TypeError)
   \<and> mapAsync NotCallable thisArg c = Inr (Rejected 0 TypeError)
   \<and> sweepAsync NotCallable thisArg c = Inr (Rejected 0 TypeError, c)"
  by (simp add: find_coll_def filter_coll_def map_coll_def sweep_def findAsync_def
      filterAsync_def mapAsync_def sweepAsync_def)

text \<open>
  C3 as stated fails for the asynchronous methods: the call returns a rejected promise,
  it does not throw.
\<close>

theorem findAsync_not_callable_returns:
  "findAsync NotCallable (None :: unit option) \<lparr>entries = [(KNum 1, 10 :: nat)], keyName = ''id''\<rparr>
     \<noteq> Inl TypeError
   \<and> findAsync NotCallable (None :: unit option) \<lparr>entries = [(KNum 1, 10 :: nat)], keyName = ''id''\<rparr>
     = Inr (Rejected 0 TypeError)"
  by (simp add: findAsync_def)

section \<open>findAsync\<close>



lemma first_fulfilled_none:
  "(\<forall>p\<in>set ps. \<forall>t x. p \<noteq> Fulfilled t x) \<Longrightarrow> first_fulfilled ps = None"
proof (induction ps)
  case Nil
  then show ?case by simp
next
  case (Cons p ps)
  then show ?case by (cases p) auto
qed

lemma catch_not_rejected: "catch p cb \<noteq> Rejected t e"
  by (cases p) auto


lemma invoke_loop_promises:
  assumes "\<forall>e\<in>set es. \<exists>p. g (snd e) (fst e) c = Inr (Promise p)"
  shows "invoke_loop g es c =
     (map (\<lambda>item. (item, case g (snd item) (fst item) c of Inr (Promise p) \<Rightarrow> p | _ \<Rightarrow> Pending)) es,
      None)"
  using assms
proof (induction es)
  case Nil
  then show ?case by simp
next
  case (Cons item es)
  from Cons.prems obtain p where p: "g (snd item) (fst item) c = Inr (Promise p)" by auto
  from Cons.prems have "\<forall>e\<in>set es. \<exists>p. g (snd e) (fst e) c = Inr (Promise p)" by simp
  from Cons.IH [OF this] show ?case by (simp add: p)
qed

lemma invoke_loop_error:
  "(snd (invoke_loop g es c) = None) = (\<forall>e\<in>set es. \<exists>p. g (snd e) (fst e) c = Inr (Promise p))"
proof (induction es)
  case Nil
  then show ?case by simp
next
  case (Cons item es)
  show ?case
  proof (cases "then_target (g (snd item) (fst item) c)")
    case (Inl e)
    then have "\<forall>p. g (snd item) (fst item) c \<noteq> Inr (Promise p)" by auto
    with Inl show ?thesis by auto
  next
    case (Inr p)
    then have "g (snd item) (fst item) c = Inr (Promise p)"
      by (cases "g (snd item) (fst item) c" rule: then_target.cases) auto
    with Inr Cons.IH show ?thesis by (auto split: prod.splits)
  qed
qed


lemma findAsync_of_promises:
  assumes "\<forall>e\<in>set (entries c). \<exists>p. bound f thisArg (snd e) (fst e) c = Inr (Promise p)"
  shows "findAsync (Callable f) thisArg c =
     Inr (catch
           (Promise_any
             (map (\<lambda>item. then_pure
                            (case bound f thisArg (snd item) (fst item) c of
                               Inr (Promise p) \<Rightarrow> p | _ \<Rightarrow> Pending)
                            (\<lambda>r. if r then Inr (Some (snd item)) else Inl (Thrown ''e'')))
                  (entries c)))
           (\<lambda>_. None))"
  using invoke_loop_promises [of "entries c" "bound f thisArg" c] assms
  by (simp add: findAsync_def invoke_all_def comp_def)



lemma then_truthy_cases:
  "p = Fulfilled t False \<or> p = Rejected t e \<Longrightarrow>
     settled (then_pure p (\<lambda>r. if r then Inr (Some v) else Inl (Thrown ''e'')))
     \<and> (\<forall>t' x. then_pure p (\<lambda>r. if r then Inr (Some v) else Inl (Thrown ''e'')) \<noteq> Fulfilled t' x)"
  by auto


lemma findAsync_rejected_iff:
  "(\<exists>t err. findAsync (Callable f) thisArg c = Inr (Rejected t err)) =
     (snd (invoke_all (bound f thisArg) c) \<noteq> None)"
proof (cases "invoke_all (bound f thisArg) c")
  case (Pair ps err)
  show ?thesis
  proof (cases err)
    case None
    with Pair show ?thesis by (simp add: findAsync_def catch_not_rejected)
  next
    case (Some e)
    with Pair show ?thesis by (simp add: findAsync_def)
  qed
qed

text \<open>
  C2 (amended). When every invocation returns a promise that is fulfilled with a falsy
  result or rejected, the promise of \<open>findAsync\<close> is fulfilled with \<^verbatim>\<open>undefined\<close>; on the
  empty collection it is so at once. A rejected invocation counts as a falsy one and
  does not reach the caller. With a callable argument the call never throws, and its
  promise is rejected exactly when some invocation does not return a promise: it throws,
  or it returns a value without \<^verbatim>\<open>then\<close>.
\<close>

theorem findAsync_no_truthy:
  "((\<forall>e\<in>set (entries c). \<exists>t.
        bound f thisArg (snd e) (fst e) c = Inr (Promise (Fulfilled t False))
        \<or> (\<exists>err. bound f thisArg (snd e) (fst e) c = Inr (Promise (Rejected t err))))
      \<longrightarrow> (\<exists>t. findAsync (Callable f) thisArg c = Inr (Fulfilled t None)))
   \<and> (entries c = [] \<longrightarrow> findAsync (Callable f) thisArg c = Inr (Fulfilled 0 None))
   \<and> ((\<exists>t err. findAsync (Callable f) thisArg c = Inr (Rejected t err)) =
        (\<exists>e\<in>set (entries c). \<forall>p. bound f thisArg (snd e) (fst e) c \<noteq> Inr (Promise p)))
   \<and> (\<forall>err. findAsync (Callable f) thisArg c \<noteq> Inl err)"
proof (intro conjI impI allI)
  let ?q = "\<lambda>item. case bound f thisArg (snd item) (fst item) c of
              Inr (Promise p) \<Rightarrow> p | _ \<Rightarrow> Pending"
  let ?cb = "\<lambda>item. \<lambda>r. if r then Inr (Some (snd item)) else Inl (Thrown ''e'')"
  let ?ps = "map (\<lambda>item. then_pure (?q item) (?cb item)) (entries c)"
  assume h: "\<forall>e\<in>set (entries c). \<exists>t.
        bound f thisArg (snd e) (fst e) c = Inr (Promise (Fulfilled t False))
        \<or> (\<exists>err. bound f thisArg (snd e) (fst e) c = Inr (Promise (Rejected t err)))"
  then have all: "\<forall>e\<in>set (entries c). \<exists>p. bound f thisArg (snd e) (fst e) c = Inr (Promise p)"
    by blast
  have each: "settled p \<and> (\<forall>t' x. p \<noteq> Fulfilled t' x)" if "p \<in> set ?ps" for p
  proof -
    from that obtain e where e: "e \<in> set (entries c)"
      and p: "p = then_pure (?q e) (?cb e)" by auto
    from h e obtain t err where
      "bound f thisArg (snd e) (fst e) c = Inr (Promise (Fulfilled t False))
        \<or> bound f thisArg (snd e) (fst e) c = Inr (Promise (Rejected t err))" by blast
    then have "?q e = Fulfilled t False \<or> ?q e = Rejected t err" by auto
    then show ?thesis unfolding p by (rule then_truthy_cases)
  qed
  then have "first_fulfilled ?ps = None" by (intro first_fulfilled_none) blast
  moreover have "list_all settled ?ps" using each by (simp only: list_all_iff) blast
  ultimately show "\<exists>t. findAsync (Callable f) thisArg c = Inr (Fulfilled t None)"
    by (simp add: findAsync_of_promises [OF all] Promise_any_def)
next
  assume "entries c = []"
  then show "findAsync (Callable f) thisArg c = Inr (Fulfilled 0 None)"
    by (simp add: findAsync_def Promise_any_def last_tick_def invoke_all_def)
next
  have "(snd (invoke_all (bound f thisArg) c) \<noteq> None) =
      (\<exists>e\<in>set (entries c). \<forall>p. bound f thisArg (snd e) (fst e) c \<noteq> Inr (Promise p))"
    using invoke_loop_error [of "bound f thisArg" "entries c" c] by (auto simp: invoke_all_def)
  then show "(\<exists>t err. findAsync (Callable f) thisArg c = Inr (Rejected t err)) =
        (\<exists>e\<in>set (entries c). \<forall>p. bound f thisArg (snd e) (fst e) c \<noteq> Inr (Promise p))"
    by (simp only: findAsync_rejected_iff)
next
  fix err
  show "findAsync (Callable f) thisArg c \<noteq> Inl err"
    by (cases "invoke_all (bound f thisArg) c") (auto simp: findAsync_def split: option.splits)
qed

theorem findAsync_no_truthy_witness:
  "(\<exists>t. findAsync
     (Callable (\<lambda>(this :: unit option) (v :: nat) k c.
        if v = 10 then Inr (Promise (Fulfilled 0 False))
        else Inr (Promise (Rejected 4 (Thrown ''no'')))))
     None \<lparr>entries = [(KNum 1, 10), (KNum 2, 20)], keyName = ''id''\<rparr>
   = Inr (Fulfilled t None))
   \<and> findAsync
     (Callable (\<lambda>(this :: unit option) (v :: nat) k c. Inr (Promise (Fulfilled 0 True))))
     None \<lparr>entries = [], keyName = ''id''\<rparr>
   = Inr (Fulfilled 0 None)"
  using findAsync_no_truthy [of "\<lparr>entries = [(KNum 1, 10), (KNum 2, 20)], keyName = ''id''\<rparr>"
      "\<lambda>(this :: unit option) (v :: nat) k c.
        if v = 10 then Inr (Promise (Fulfilled 0 False))
        else Inr (Promise (Rejected 4 (Thrown ''no'')))" None]
    findAsync_no_truthy [of "\<lparr>entries = [], keyName = ''id''\<rparr>"
      "\<lambda>(this :: unit option) (v :: nat) k c. Inr (Promise (Fulfilled 0 True))" None]
  by (simp add: bound_def)

text \<open>
  C2 as stated fails for a callable that throws when it is invoked, and for one that
  returns a plain value: the error leaves the body of \<open>findAsync\<close> before \<^verbatim>\<open>catch\<close> is
  attached, and the promise returned is rejected. An entry invoked before it changes
  nothing, an entry after it is not invoked.
\<close>

theorem findAsync_throwing_callable_rejects:
  "findAsync
     (Callable (\<lambda>(this :: unit option) (v :: nat) k c.
        if v = 10 then Inr (Promise (Fulfilled 0 False)) else Inl (Thrown ''boom'')))
     None \<lparr>entries = [(KNum 1, 10), (KNum 2, 20), (KNum 3, 30)], keyName = ''id''\<rparr>
   = Inr (Rejected 0 (Thrown ''boom''))
   \<and> findAsync
     (Callable (\<lambda>(this :: unit option) (v :: nat) k c. Inr NonThenable))
     None \<lparr>entries = [(KNum 1, 10)], keyName = ''id''\<rparr>
   = Inr (Rejected 0 TypeError)"
  by (simp add: findAsync_def invoke_all_def bound_def)

section \<open>filterAsync and mapAsync against filter and map\<close>

lemma last_tick_zero: "(\<forall>p\<in>set ps. settle_time p = 0) \<Longrightarrow> last_tick ps = 0"
proof -
  assume h: "\<forall>p\<in>set ps. settle_time p = 0"
  have "fold max (map settle_time ps) n = n" if "\<forall>p\<in>set ps. settle_time p = 0" for n
    using that by (induction ps arbitrary: n) auto
  with h show ?thesis by (simp add: last_tick_def)
qed

lemma run_reactions_immediate:
  assumes "\<forall>x\<in>set ps. \<exists>r. snd x = Fulfilled 0 r"
  shows "run_reactions ps cb s = fold (\<lambda>(i, p) s. case p of Fulfilled t r \<Rightarrow> cb i r s | _ \<Rightarrow> s) ps s"
proof -
  have all: "filter (\<lambda>(i, p). settled p) ps = ps"
    using assms by (intro filter_True) (auto simp: split_def)
  have "sorted (map f xs)" if "\<forall>x\<in>set xs. f x = (0::nat)" for f and xs :: "('a \<times> 'b promise) list"
    using that by (induction xs) auto
  moreover have "\<forall>x\<in>set ps. (\<lambda>(i, p). settle_time p) x = 0" using assms by (auto simp: split_def)
  ultimately have "sorted (map (\<lambda>(i, p). settle_time p) ps)" by blast
  then have "sort_key (\<lambda>(i, p). settle_time p) ps = ps" by (rule sort_key_id_if_sorted)
  with all show ?thesis by (simp add: run_reactions_def)
qed

lemma allSettled_immediate:
  assumes "\<forall>p\<in>set ps. \<exists>r. p = Fulfilled 0 r"
  shows "Promise_allSettled ps result = Fulfilled 0 result"
proof -
  have "list_all settled ps" using assms by (auto simp: list_all_iff)
  moreover have "last_tick ps = 0" using assms by (intro last_tick_zero) auto
  ultimately show ?thesis by (simp add: Promise_allSettled_def)
qed

lemma filter_fold:
  assumes "\<forall>e\<in>set es. q e = Fulfilled 0 (p (snd e) (fst e) c)"
  shows "fold (\<lambda>(i, q) s. case q of Fulfilled t r \<Rightarrow> (if r then Map_set (fst i) (snd i) s else s) | _ \<Rightarrow> s)
           (map (\<lambda>item. (item, q item)) es) res
         = filter_loop p es c res"
  using assms by (induction es arbitrary: res) auto

lemma map_fold:
  assumes "\<forall>e\<in>set es. q e = Fulfilled 0 (g (snd e) (fst e) c)"
  shows "fold (\<lambda>(i, q) s. case q of Fulfilled t r \<Rightarrow> Map_set (fst i) r s | _ \<Rightarrow> s)
           (map (\<lambda>item. (item, q item)) es) res
         = map_loop g es c res"
  using assms by (induction es arbitrary: res) auto

lemma invoke_all_immediate:
  assumes "\<forall>e\<in>set (entries c). g (snd e) (fst e) c = Inr (Promise (Fulfilled 0 (h (snd e) (fst e) c)))"
  shows "invoke_all g c = (map (\<lambda>item. (item, Fulfilled 0 (h (snd item) (fst item) c))) (entries c), None)"
proof -
  have all: "\<forall>e\<in>set (entries c). \<exists>p. g (snd e) (fst e) c = Inr (Promise p)" using assms by blast
  have "map (\<lambda>item. (item, case g (snd item) (fst item) c of Inr (Promise p) \<Rightarrow> p | _ \<Rightarrow> Pending))
          (entries c)
      = map (\<lambda>item. (item, Fulfilled 0 (h (snd item) (fst item) c))) (entries c)"
    using assms by (intro map_cong) auto
  with invoke_loop_promises [of "entries c" g c] all show ?thesis by (simp add: invoke_all_def)
qed

lemma filterAsync_immediate:
  assumes "\<forall>e\<in>set (entries c).
     bound fa ta (snd e) (fst e) c = Inr (Promise (Fulfilled 0 (bound p ts (snd e) (fst e) c)))"
  shows "filterAsync (Callable fa) ta c =
     Inr (Fulfilled 0 (filter_loop (bound p ts) (entries c) c (species_new (keyName c))))"
proof -
  let ?ps = "map (\<lambda>item. (item, Fulfilled 0 (bound p ts (snd item) (fst item) c))) (entries c)"
  have inv: "invoke_all (bound fa ta) c = (?ps, None)"
    using assms by (rule invoke_all_immediate)
  have a: "\<forall>x\<in>set ?ps. \<exists>r. snd x = Fulfilled 0 r" by auto
  have b: "\<forall>q\<in>set (map snd ?ps). \<exists>r. q = Fulfilled 0 r" by auto
  have f: "fold (\<lambda>(i, q) s. case q of Fulfilled t r \<Rightarrow> (if r then Map_set (fst i) (snd i) s else s) | _ \<Rightarrow> s)
           ?ps res = filter_loop (bound p ts) (entries c) c res" for res
    by (rule filter_fold) simp
  show ?thesis
    by (simp add: filterAsync_def Let_def inv run_reactions_immediate [OF a]
        allSettled_immediate [OF b] f del: map_map)
qed

lemma mapAsync_immediate:
  assumes "\<forall>e\<in>set (entries c).
     bound ga ta (snd e) (fst e) c = Inr (Promise (Fulfilled 0 (bound g ts (snd e) (fst e) c)))"
  shows "mapAsync (Callable ga) ta c =
     Inr (Fulfilled 0 (map_loop (bound g ts) (entries c) c (species_new (keyName c))))"
proof -
  let ?ps = "map (\<lambda>item. (item, Fulfilled 0 (bound g ts (snd item) (fst item) c))) (entries c)"
  have inv: "invoke_all (bound ga ta) c = (?ps, None)"
    using assms by (rule invoke_all_immediate)
  have a: "\<forall>x\<in>set ?ps. \<exists>r. snd x = Fulfilled 0 r" by auto
  have b: "\<forall>q\<in>set (map snd ?ps). \<exists>r. q = Fulfilled 0 r" by auto
  have f: "fold (\<lambda>(i, q) s. case q of Fulfilled t r \<Rightarrow> Map_set (fst i) r s | _ \<Rightarrow> s)
           ?ps res = map_loop (bound g ts) (entries c) c res" for res
    by (rule map_fold) simp
  show ?thesis
    by (simp add: mapAsync_def Let_def inv run_reactions_immediate [OF a]
        allSettled_immediate [OF b] f del: map_map)
qed

text \<open>
  C4. When every invocation of the asynchronous predicate returns a promise fulfilled at
  once, with
  the value the synchronous predicate returns on the same entry, \<open>filterAsync\<close> is
  fulfilled with a collection that has the same set of entries, and the same key field,
  as the collection \<open>filter\<close> returns; likewise for \<open>mapAsync\<close> and \<open>map\<close> with a
  transform.
\<close>

theorem async_immediate_agrees:
  "((\<forall>e\<in>set (entries c).
        bound fa ta (snd e) (fst e) c = Inr (Promise (Fulfilled 0 (bound p ts (snd e) (fst e) c))))
     \<longrightarrow> (\<exists>r r'. filterAsync (Callable fa) ta c = Inr (Fulfilled 0 r)
            \<and> filter_coll (Callable p) ts c = Inr r'
            \<and> set (entries r) = set (entries r') \<and> keyName r = keyName r'))
   \<and> ((\<forall>e\<in>set (entries c).
        bound ga ta (snd e) (fst e) c = Inr (Promise (Fulfilled 0 (bound g ts (snd e) (fst e) c))))
     \<longrightarrow> (\<exists>r r'. mapAsync (Callable ga) ta c = Inr (Fulfilled 0 r)
            \<and> map_coll (Callable g) ts c = Inr r'
            \<and> set (entries r) = set (entries r') \<and> keyName r = keyName r'))"
proof (intro conjI impI)
  assume h: "\<forall>e\<in>set (entries c).
        bound fa ta (snd e) (fst e) c = Inr (Promise (Fulfilled 0 (bound p ts (snd e) (fst e) c)))"
  let ?r = "filter_loop (bound p ts) (entries c) c (species_new (keyName c))"
  have "filterAsync (Callable fa) ta c = Inr (Fulfilled 0 ?r)"
    using h by (rule filterAsync_immediate)
  moreover have "filter_coll (Callable p) ts c = Inr ?r" by (simp add: filter_coll_def)
  ultimately show "\<exists>r r'. filterAsync (Callable fa) ta c = Inr (Fulfilled 0 r)
            \<and> filter_coll (Callable p) ts c = Inr r'
            \<and> set (entries r) = set (entries r') \<and> keyName r = keyName r'" by blast
next
  assume h: "\<forall>e\<in>set (entries c).
        bound ga ta (snd e) (fst e) c = Inr (Promise (Fulfilled 0 (bound g ts (snd e) (fst e) c)))"
  let ?r = "map_loop (bound g ts) (entries c) c (species_new (keyName c))"
  have "mapAsync (Callable ga) ta c = Inr (Fulfilled 0 ?r)"
    using h by (rule mapAsync_immediate)
  moreover have "map_coll (Callable g) ts c = Inr ?r" by (simp add: map_coll_def)
  ultimately show "\<exists>r r'. mapAsync (Callable ga) ta c = Inr (Fulfilled 0 r)
            \<and> map_coll (Callable g) ts c = Inr r'
            \<and> set (entries r) = set (entries r') \<and> keyName r = keyName r'" by blast
qed

theorem async_immediate_agrees_witness:
  "(\<exists>r r'. filterAsync (Callable (\<lambda>(this :: unit option) (v :: nat) k c. Inr (Promise (Fulfilled 0 (even v))))) None
        \<lparr>entries = [(KNum 1, 10), (KNum 2, 21), (KNum 3, 30)], keyName = ''id''\<rparr>
        = Inr (Fulfilled 0 r)
      \<and> filter_coll (Callable (\<lambda>(this :: unit option) (v :: nat) k c. even v)) None
        \<lparr>entries = [(KNum 1, 10), (KNum 2, 21), (KNum 3, 30)], keyName = ''id''\<rparr> = Inr r'
      \<and> set (entries r) = set (entries r') \<and> keyName r = keyName r')
   \<and> (\<exists>r r'. mapAsync (Callable (\<lambda>(this :: unit option) (v :: nat) k c. Inr (Promise (Fulfilled 0 (Suc v))))) None
        \<lparr>entries = [(KNum 1, 10), (KNum 2, 21), (KNum 3, 30)], keyName = ''id''\<rparr>
        = Inr (Fulfilled 0 r)
      \<and> map_coll (Callable (\<lambda>(this :: unit option) (v :: nat) k c. Suc v)) None
        \<lparr>entries = [(KNum 1, 10), (KNum 2, 21), (KNum 3, 30)], keyName = ''id''\<rparr> = Inr r'
      \<and> set (entries r) = set (entries r') \<and> keyName r = keyName r')"
  using async_immediate_agrees [of "\<lparr>entries = [(KNum 1, 10), (KNum 2, 21), (KNum 3, 30)], keyName = ''id''\<rparr>"
      "\<lambda>(this :: unit option) (v :: nat) k c. Inr (Promise (Fulfilled 0 (even v)))" None
      "\<lambda>(this :: unit option) (v :: nat) k c. even v" None
      "\<lambda>(this :: unit option) (v :: nat) k c. Inr (Promise (Fulfilled 0 (Suc v)))"
      "\<lambda>(this :: unit option) (v :: nat) k c. Suc v"]
  by (simp add: bound_def)

section \<open>Empty collections\<close>

text \<open>
  C10. \<open>randomItem\<close> on an empty collection returns \<^verbatim>\<open>undefined\<close>, whatever the random
  number is: the index computed is \<open>0\<close>, and reading the empty array there yields
  \<^verbatim>\<open>undefined\<close>; the method has no branch that throws.
\<close>

theorem randomItem_empty: "randomItem rnd (c\<lparr>entries := []\<rparr>) = None"
  by (simp add: randomItem_def array_get_def Map_size_def)

end
